theory Spec2Isabelle
  imports Main "HOL-Library.Sublist"
begin

section \<open>The argument splitter of \<^verbatim>\<open>src/util/argument-splitter.ts\<close>\<close>

text \<open>
  The splitter is a character-scanning state machine held in the fields of one
  \<^verbatim>\<open>ArgumentSplitter\<close> object. The embedding passes that object explicitly: every
  private method takes the object and returns the updated one. Strings are \<open>string\<close>;
  the one-character strings produced by \<^verbatim>\<open>charAt\<close> are singleton lists and the
  end marker \<^verbatim>\<open>''\<close> is the empty list. The scanner tells apart only the backslash,
  the double quote, the backtick and six whitespace characters, all of them ASCII, so
  a \<open>char\<close> stands for one code unit of the source's strings. Indices are \<open>int\<close> (the
  source computes \<^verbatim>\<open>i - present\<close>), the backtick counters are \<open>nat\<close> (the source only
  subtracts \<^verbatim>\<open>past\<close> from \<^verbatim>\<open>present\<close> when it is not larger).
\<close>

subsection \<open>Data\<close>

datatype GroupType = New | None' | DoubleQuote | CodeBacktick

record SplitArgument =
  content :: string
  type :: GroupType
  originalIndex :: int

datatype ArgumentSplitterError =
    UnknownBackticksToMatch
  | ImpossibleCondition GroupType
  | UnfinishedGroup GroupType

record SplitArgumentArray =
  original :: string
  array_args :: "SplitArgument list"

record ArgumentSplitter =
  escaped :: bool
  startOfCurrentGroup :: int
  group :: GroupType
  next' :: string
  past :: nat
  present :: nat
  args :: "SplitArgument list"

definition new_ArgumentSplitter :: ArgumentSplitter where
  "new_ArgumentSplitter =
     \<lparr>escaped = False, startOfCurrentGroup = 0, group = New, next' = [],
      past = 0, present = 0, args = []\<rparr>"

definition maxBackticksToFormAGroup :: nat where
  "maxBackticksToFormAGroup = 3"

abbreviation backslash :: char where "backslash \<equiv> CHR 0x5C"
abbreviation dquote :: char where "dquote \<equiv> CHR 0x22"
abbreviation backtick :: char where "backtick \<equiv> CHR 0x60"

definition whitespace :: "char set" where
  "whitespace = {CHR 0x20, CHR 0x0C, CHR 0x0A, CHR 0x0D, CHR 0x09, CHR 0x0B}"

subsection \<open>The token sequence\<close>

text \<open>
  \<^verbatim>\<open>String.prototype.substring\<close>: an absent (\<^verbatim>\<open>undefined\<close>) start is 0, an absent
  end is the length, both are clamped to \<open>[0, length]\<close>, and they are swapped when
  the start exceeds the end.
\<close>

definition substring :: "string \<Rightarrow> int option \<Rightarrow> int option \<Rightarrow> string" where
  "substring s indexStart indexEnd =
     (let len = int (length s);
          a = (case indexStart of None \<Rightarrow> 0 | Some x \<Rightarrow> min (max x 0) len);
          b = (case indexEnd of None \<Rightarrow> len | Some y \<Rightarrow> min (max y 0) len);
          lo = min a b;
          hi = max a b
      in take (nat (hi - lo)) (drop (nat lo) s))"

text \<open>\<^verbatim>\<open>this.args[i]\<close>: \<^verbatim>\<open>undefined\<close> outside the array.\<close>

definition arg_at :: "SplitArgument list \<Rightarrow> int \<Rightarrow> SplitArgument option" where
  "arg_at xs i = (if 0 \<le> i \<and> i < int (length xs) then Some (xs ! nat i) else None)"

definition length_args :: "SplitArgumentArray \<Rightarrow> nat" where
  "length_args a = length (array_args a)"

definition restore :: "SplitArgumentArray \<Rightarrow> int \<Rightarrow> int option \<Rightarrow> string" where
  "restore a start endIndex =
     substring (original a)
       (map_option originalIndex (arg_at (array_args a) start))
       (case endIndex of None \<Rightarrow> None
        | Some e \<Rightarrow> map_option originalIndex (arg_at (array_args a) e))"

subsection \<open>The state machine\<close>

definition pushArg :: "ArgumentSplitter \<Rightarrow> ArgumentSplitter" where
  "pushArg s =
     (let s1 = (if next' s \<noteq> [] \<or> (group s \<noteq> None' \<and> group s \<noteq> New)
                then s\<lparr>args := args s @
                          [\<lparr>content = next' s, type = group s,
                            originalIndex = startOfCurrentGroup s\<rparr>],
                       next' := []\<rparr>
                else s)
      in s1\<lparr>group := New\<rparr>)"

definition newGroup :: "GroupType \<Rightarrow> int \<Rightarrow> ArgumentSplitter \<Rightarrow> ArgumentSplitter" where
  "newGroup t i s = s\<lparr>group := t, startOfCurrentGroup := i\<rparr>"

definition appendChar :: "string \<Rightarrow> int \<Rightarrow> ArgumentSplitter \<Rightarrow> ArgumentSplitter" where
  "appendChar char i s =
     (let s1 = (if group s = New \<and> char \<noteq> [] then newGroup None' i s else s)
      in s1\<lparr>next' := next' s1 @ char, escaped := False\<rparr>)"

definition consumeNormalChar :: "string \<Rightarrow> int \<Rightarrow> ArgumentSplitter \<Rightarrow> ArgumentSplitter" where
  "consumeNormalChar char i s =
     (if char = [backslash] then
        (let s1 = s\<lparr>escaped := \<not> escaped s\<rparr>
         in if \<not> escaped s1 then appendChar char i s1 else s1)
      else if char = [dquote] then
        (if group s = DoubleQuote then
           (if \<not> escaped s then pushArg s else appendChar char i s)
         else if group s = New \<or> group s = None' then
           (if \<not> escaped s then newGroup DoubleQuote i (pushArg s)
            else appendChar char i s)
         else appendChar char i s)
      else if (\<exists>c \<in> whitespace. char = [c]) then
        (if group s = None' \<or> group s = New then pushArg s else appendChar char i s)
      else if char = [] then
        (if group s = None' then pushArg s else s)
      else appendChar char i s)"

text \<open>
  The \<^verbatim>\<open>for\<close> loop of \<^verbatim>\<open>handleExtraBackticks\<close>: the first argument counts the
  iterations still to run, the second is \<^verbatim>\<open>lookbackIndex\<close>, which the loop returns.
\<close>

fun completeGroupsLoop :: "nat \<Rightarrow> int \<Rightarrow> ArgumentSplitter \<Rightarrow> ArgumentSplitter \<times> int" where
  "completeGroupsLoop 0 lookbackIndex s = (s, lookbackIndex)"
| "completeGroupsLoop (Suc n) lookbackIndex s =
     completeGroupsLoop n (lookbackIndex + int (maxBackticksToFormAGroup * 2))
       (pushArg (newGroup CodeBacktick lookbackIndex s))"

definition handleExtraBackticks :: "int \<Rightarrow> ArgumentSplitter \<Rightarrow> ArgumentSplitter" where
  "handleExtraBackticks i s =
     (let maxGroups = present s div maxBackticksToFormAGroup;
          leftOver = present s mod maxBackticksToFormAGroup;
          completeGroups = maxGroups div 2;
          endsWithNewMaxGroup = (maxGroups mod 2 = 1);
          (s1, lookbackIndex) = completeGroupsLoop completeGroups (i - int (present s)) s;
          s2 = s1\<lparr>past := (if endsWithNewMaxGroup then maxBackticksToFormAGroup else leftOver),
                  present := 0\<rparr>
      in if endsWithNewMaxGroup then
           appendChar (replicate leftOver backtick) i (newGroup CodeBacktick lookbackIndex s2)
         else if leftOver \<noteq> 0 then newGroup CodeBacktick lookbackIndex s2
         else s2)"

text \<open>
  Both branches of \<^verbatim>\<open>consumeChar\<close> that resolve a backtick run end with the same
  statement, \<^verbatim>\<open>if (this.group === GroupType.CodeBacktick) appendChar else consumeNormalChar\<close>.
\<close>

definition afterBackticks :: "string \<Rightarrow> int \<Rightarrow> ArgumentSplitter \<Rightarrow> ArgumentSplitter" where
  "afterBackticks char i s =
     (if group s = CodeBacktick then appendChar char i s else consumeNormalChar char i s)"

text \<open>
  \<^verbatim>\<open>consumeChar\<close> has the two internal \<^verbatim>\<open>throw\<close> sites; both sit before any
  assignment, so a failing call leaves the object as it was.
\<close>

definition consumeChar ::
  "string \<Rightarrow> int \<Rightarrow> ArgumentSplitter \<Rightarrow> ArgumentSplitterError + ArgumentSplitter" where
  "consumeChar char i s =
     (if group s = DoubleQuote then Inr (consumeNormalChar char i s)
      else if char = [backtick] \<and> \<not> escaped s then Inr (s\<lparr>present := present s + 1\<rparr>)
      else if present s \<noteq> 0 then
        (if group s = None' \<or> group s = New then
           Inr (afterBackticks char i
                  (handleExtraBackticks i ((pushArg s)\<lparr>group := CodeBacktick\<rparr>)))
         else if group s = CodeBacktick then
           (if past s = 0 then Inl UnknownBackticksToMatch
            else if present s < past s then
              Inr (appendChar (replicate (present s) backtick) i s)
            else
              Inr (afterBackticks char i
                     (handleExtraBackticks i (pushArg (s\<lparr>present := present s - past s\<rparr>)))))
         else Inl (ImpossibleCondition (group s)))
      else Inr (consumeNormalChar char i s))"

text \<open>
  The \<^verbatim>\<open>for\<close> loop of \<^verbatim>\<open>split\<close> over the characters still to read, with the index
  of the first of them. A \<^verbatim>\<open>throw\<close> ends the loop and leaves the object as it is.
\<close>

fun consumeAll ::
  "string \<Rightarrow> int \<Rightarrow> ArgumentSplitter \<Rightarrow> ArgumentSplitter \<times> ArgumentSplitterError option" where
  "consumeAll [] i s = (s, None)"
| "consumeAll (c # cs) i s =
     (case consumeChar [c] i s of
        Inl e \<Rightarrow> (s, Some e)
      | Inr s' \<Rightarrow> consumeAll cs (i + 1) s')"

text \<open>
  \<^verbatim>\<open>split\<close> is a method: it reads and writes the object it is called on. The result
  is the object after the call, with either the error thrown or the array returned.
\<close>

definition split ::
  "ArgumentSplitter \<Rightarrow> string \<Rightarrow>
     ArgumentSplitter \<times> (ArgumentSplitterError + SplitArgumentArray)" where
  "split this input =
     (case consumeAll input 0 this of
        (s1, Some e) \<Rightarrow> (s1, Inl e)
      | (s1, None) \<Rightarrow>
          (case consumeChar [] (int (length input)) s1 of
             Inl e \<Rightarrow> (s1, Inl e)
           | Inr s2 \<Rightarrow>
               if group s2 \<noteq> New then (s2, Inl (UnfinishedGroup (group s2)))
               else (s2, Inr \<lparr>original = input, array_args = args s2\<rparr>)))"

text \<open>\<^verbatim>\<open>new ArgumentSplitter().split(content)\<close>: the call on a fresh object.\<close>

definition split_new :: "string \<Rightarrow> ArgumentSplitterError + SplitArgumentArray" where
  "split_new input = snd (split new_ArgumentSplitter input)"

subsection \<open>Invariants of the scan\<close>

text \<open>
  What every state reached by \<^verbatim>\<open>consumeChar\<close> satisfies: nothing is buffered before a
  group is opened, an ungrouped word is never empty, no backtick is pending inside a
  quoted group, an open code group knows its width, and no pushed argument has the
  transient kind \<open>New\<close>.
\<close>

definition state_ok :: "ArgumentSplitter \<Rightarrow> bool" where
  "state_ok s \<longleftrightarrow>
     (group s = New \<longrightarrow> next' s = []) \<and>
     (group s = None' \<longrightarrow> next' s \<noteq> []) \<and>
     (group s = DoubleQuote \<longrightarrow> present s = 0) \<and>
     (group s = CodeBacktick \<longrightarrow> past s \<noteq> 0) \<and>
     (\<forall>a \<in> set (args s). type a \<noteq> New)"

text \<open>
  The offsets, relative to the index \<open>i\<close> of the next character to consume: the pushed
  offsets are sorted and non-negative, they and the start of the open group lie before
  the pending backticks, and the open group starts at or after every pushed argument.
\<close>

definition offsets_ok :: "int \<Rightarrow> ArgumentSplitter \<Rightarrow> bool" where
  "offsets_ok i s \<longleftrightarrow>
     sorted (map originalIndex (args s)) \<and>
     (\<forall>a \<in> set (args s). 0 \<le> originalIndex a \<and> originalIndex a + int (present s) < i) \<and>
     (group s \<noteq> New \<longrightarrow>
        0 \<le> startOfCurrentGroup s \<and> startOfCurrentGroup s + int (present s) < i \<and>
        (\<forall>a \<in> set (args s). originalIndex a \<le> startOfCurrentGroup s)) \<and>
     int (present s) \<le> i"

text \<open>
  Where the first argument starts, or will start: the offset of the first pushed
  argument; before any is pushed, the start of the open group; before any group is
  open, the index of the first pending backtick. The scan keeps every character before
  that position a whitespace character or a backslash, and the character at that
  position, once read, is not a whitespace character.
\<close>

definition first_start :: "int \<Rightarrow> ArgumentSplitter \<Rightarrow> int" where
  "first_start i s =
     (case args s of
        a # _ \<Rightarrow> originalIndex a
      | [] \<Rightarrow> if group s \<noteq> New then startOfCurrentGroup s else i - int (present s))"

definition escape_or_space :: "char set" where
  "escape_or_space = whitespace \<union> {backslash}"

definition lead_ok :: "string \<Rightarrow> int \<Rightarrow> ArgumentSplitter \<Rightarrow> bool" where
  "lead_ok pre i s \<longleftrightarrow>
     set (take (nat (first_start i s)) pre) \<subseteq> escape_or_space \<and>
     (first_start i s < int (length pre) \<longrightarrow> pre ! nat (first_start i s) \<notin> whitespace)"

text \<open>
  The wording of the specification for what \<^verbatim>\<open>restore(0)\<close> returns: the input with its
  leading whitespace removed.
\<close>

definition leading_whitespace_removed :: "string \<Rightarrow> string" where
  "leading_whitespace_removed s = dropWhile (\<lambda>c. c \<in> whitespace) s"

section \<open>What the private methods do to each field\<close>

lemma pushArg_fields [simp]:
  "group (pushArg s) = New"
  "next' (pushArg s) = []"
  "escaped (pushArg s) = escaped s"
  "startOfCurrentGroup (pushArg s) = startOfCurrentGroup s"
  "past (pushArg s) = past s"
  "present (pushArg s) = present s"
  by (simp_all add: pushArg_def)

lemma pushArg_args:
  "args (pushArg s) =
     (if next' s \<noteq> [] \<or> group s = DoubleQuote \<or> group s = CodeBacktick
      then args s @ [\<lparr>content = next' s, type = group s,
                      originalIndex = startOfCurrentGroup s\<rparr>]
      else args s)"
  by (cases "group s") (simp_all add: pushArg_def)

lemma newGroup_fields [simp]:
  "group (newGroup t i s) = t"
  "startOfCurrentGroup (newGroup t i s) = i"
  "next' (newGroup t i s) = next' s"
  "escaped (newGroup t i s) = escaped s"
  "past (newGroup t i s) = past s"
  "present (newGroup t i s) = present s"
  "args (newGroup t i s) = args s"
  by (simp_all add: newGroup_def)

lemma appendChar_fields [simp]:
  "group (appendChar c i s) = (if group s = New \<and> c \<noteq> [] then None' else group s)"
  "startOfCurrentGroup (appendChar c i s) =
     (if group s = New \<and> c \<noteq> [] then i else startOfCurrentGroup s)"
  "next' (appendChar c i s) = next' s @ c"
  "escaped (appendChar c i s) = False"
  "past (appendChar c i s) = past s"
  "present (appendChar c i s) = present s"
  "args (appendChar c i s) = args s"
  by (simp_all add: appendChar_def)

lemma loop_snd: "snd (completeGroupsLoop n lb s) = lb + 6 * int n"
  by (induction n arbitrary: lb s) (simp_all add: maxBackticksToFormAGroup_def)

lemma loop_same [simp]:
  "escaped (fst (completeGroupsLoop n lb s)) = escaped s"
  "past (fst (completeGroupsLoop n lb s)) = past s"
  "present (fst (completeGroupsLoop n lb s)) = present s"
  by (induction n arbitrary: lb s) simp_all

lemma loop_group: "group (fst (completeGroupsLoop n lb s)) = (if n = 0 then group s else New)"
  by (induction n arbitrary: lb s) simp_all

lemma loop_next: "next' s = [] \<Longrightarrow> next' (fst (completeGroupsLoop n lb s)) = []"
  by (induction n arbitrary: lb s) simp_all

lemma loop_start:
  "startOfCurrentGroup (fst (completeGroupsLoop n lb s)) =
     (if n = 0 then startOfCurrentGroup s else lb + 6 * (int n - 1))"
  by (induction n arbitrary: lb s) (simp_all add: maxBackticksToFormAGroup_def)

lemma loop_args:
  "next' s = [] \<Longrightarrow>
   args (fst (completeGroupsLoop n lb s)) =
     args s @ map (\<lambda>j. \<lparr>content = [], type = CodeBacktick, originalIndex = lb + 6 * int j\<rparr>) [0..<n]"
proof (induction n arbitrary: lb s)
  case 0
  then show ?case by simp
next
  case (Suc n)
  have "map (\<lambda>j. \<lparr>content = [], type = CodeBacktick, originalIndex = lb + 6 * int j\<rparr>) [0..<Suc n]
      = \<lparr>content = [], type = CodeBacktick, originalIndex = lb\<rparr> #
        map (\<lambda>j. \<lparr>content = [], type = CodeBacktick, originalIndex = (lb + 6) + 6 * int j\<rparr>) [0..<n]"
    by (simp add: upt_conv_Cons map_Suc_upt[symmetric] del: upt_Suc)
  with Suc show ?case
    by (simp add: pushArg_args maxBackticksToFormAGroup_def del: upt_Suc)
qed


lemma handle_present [simp]: "present (handleExtraBackticks i s) = 0"
  by (simp add: handleExtraBackticks_def Let_def split_beta)

lemma handle_past:
  "past (handleExtraBackticks i s) =
     (if (present s div 3) mod 2 = 1 then 3 else present s mod 3)"
  by (simp add: handleExtraBackticks_def Let_def split_beta maxBackticksToFormAGroup_def)

lemma handle_args:
  "next' s = [] \<Longrightarrow>
   args (handleExtraBackticks i s) =
     args s @ map (\<lambda>j. \<lparr>content = [], type = CodeBacktick,
                          originalIndex = i - int (present s) + 6 * int j\<rparr>)
                [0..<present s div 3 div 2]"
  by (simp add: handleExtraBackticks_def Let_def split_beta loop_args
      maxBackticksToFormAGroup_def)

lemma handle_group:
  "group (handleExtraBackticks i s) =
     (if (present s div 3) mod 2 = 1 \<or> present s mod 3 \<noteq> 0 then CodeBacktick
      else if present s div 3 div 2 = 0 then group s else New)"
  by (simp add: handleExtraBackticks_def Let_def split_beta loop_group
      maxBackticksToFormAGroup_def)

lemma handle_start:
  "startOfCurrentGroup (handleExtraBackticks i s) =
     (if (present s div 3) mod 2 = 1 \<or> present s mod 3 \<noteq> 0
      then i - int (present s) + 6 * int (present s div 3 div 2)
      else if present s div 3 div 2 = 0 then startOfCurrentGroup s
      else i - int (present s) + 6 * (int (present s div 3 div 2) - 1))"
  by (simp add: handleExtraBackticks_def Let_def split_beta loop_start loop_snd
      maxBackticksToFormAGroup_def)

lemma handle_next:
  "next' s = [] \<Longrightarrow>
   next' (handleExtraBackticks i s) =
     (if (present s div 3) mod 2 = 1 then replicate (present s mod 3) backtick else [])"
  by (simp add: handleExtraBackticks_def Let_def split_beta loop_next
      maxBackticksToFormAGroup_def)


subsection \<open>The shape invariant is kept\<close>

lemma new_ok: "state_ok new_ArgumentSplitter"
  by (simp add: state_ok_def new_ArgumentSplitter_def)

lemma pushArg_ok: "state_ok s \<Longrightarrow> state_ok (pushArg s)"
  by (auto simp: state_ok_def pushArg_args)

lemma appendChar_ok: "state_ok s \<Longrightarrow> state_ok (appendChar c i s)"
  by (auto simp: state_ok_def)

lemma consumeNormalChar_ok:
  "state_ok s \<Longrightarrow> present s = 0 \<Longrightarrow> state_ok (consumeNormalChar c i s)"
proof -
  assume ok: "state_ok s" and p0: "present s = 0"
  have 1: "state_ok (s\<lparr>escaped := b\<rparr>)" for b
    using ok by (simp add: state_ok_def)
  have 2: "state_ok (newGroup DoubleQuote i (pushArg s))"
    using pushArg_ok[OF ok] p0 by (simp add: state_ok_def)
  show ?thesis
    unfolding consumeNormalChar_def Let_def
    using 1 2 ok by (simp add: pushArg_ok appendChar_ok)
qed

lemma handle_ok:
  assumes "next' t = []" "\<forall>a \<in> set (args t). type a \<noteq> New"
    "present t = 0 \<longrightarrow> group t = New"
  shows "state_ok (handleExtraBackticks i t)"
proof -
  have "present t = 0" if "present t mod 3 = 0" "(present t div 3) mod 2 \<noteq> 1"
    "present t div 3 div 2 = 0"
    using that by presburger
  with assms show ?thesis
    by (auto simp: state_ok_def handle_group handle_next handle_past handle_args)
qed

lemma afterBackticks_ok:
  "state_ok s \<Longrightarrow> present s = 0 \<Longrightarrow> state_ok (afterBackticks c i s)"
  by (simp add: afterBackticks_def appendChar_ok consumeNormalChar_ok)

lemma consumeChar_ok:
  assumes "state_ok s"
  shows "\<exists>s'. consumeChar c i s = Inr s' \<and> state_ok s'"
proof (cases "group s = DoubleQuote")
  case True
  with assms have "present s = 0" by (simp add: state_ok_def)
  with True assms show ?thesis
    by (simp add: consumeChar_def consumeNormalChar_ok)
next
  case nq: False
  show ?thesis
  proof (cases "c = [backtick] \<and> \<not> escaped s")
    case True
    have "state_ok (s\<lparr>present := present s + 1\<rparr>)"
      using assms nq by (auto simp: state_ok_def)
    with True nq show ?thesis by (simp add: consumeChar_def)
  next
    case nb: False
    show ?thesis
    proof (cases "present s = 0")
      case True
      with nq nb assms show ?thesis
        by (auto simp: consumeChar_def consumeNormalChar_ok)
    next
      case pp: False
      show ?thesis
      proof (cases "group s = CodeBacktick")
        case False
        have "state_ok (handleExtraBackticks i ((pushArg s)\<lparr>group := CodeBacktick\<rparr>))"
        proof (rule handle_ok)
          show "\<forall>a \<in> set (args ((pushArg s)\<lparr>group := CodeBacktick\<rparr>)). type a \<noteq> New"
            using assms by (auto simp: state_ok_def pushArg_args)
        qed (use pp in simp_all)
        then have "state_ok (afterBackticks c i
            (handleExtraBackticks i ((pushArg s)\<lparr>group := CodeBacktick\<rparr>)))"
          by (simp add: afterBackticks_ok)
        moreover have "group s = None' \<or> group s = New"
          using False nq by (cases "group s") simp_all
        ultimately show ?thesis
          using nq nb pp by (auto simp: consumeChar_def)
      next
        case True
        then have pz: "past s \<noteq> 0" using assms by (simp add: state_ok_def)
        have "state_ok (handleExtraBackticks i (pushArg (s\<lparr>present := present s - past s\<rparr>)))"
          using assms by (intro handle_ok) (auto simp: state_ok_def pushArg_args)
        then have "state_ok (afterBackticks c i
            (handleExtraBackticks i (pushArg (s\<lparr>present := present s - past s\<rparr>))))"
          by (simp add: afterBackticks_ok)
        moreover have "state_ok (appendChar (replicate (present s) backtick) i s)"
          using assms by (rule appendChar_ok)
        ultimately show ?thesis
          using nq nb pp pz True by (auto simp: consumeChar_def)
      qed
    qed
  qed
qed


subsection \<open>The offsets invariant is kept\<close>

lemma new_offsets_ok: "offsets_ok 0 new_ArgumentSplitter"
  by (simp add: offsets_ok_def new_ArgumentSplitter_def)

lemma offsets_ok_mono: "offsets_ok i s \<Longrightarrow> i \<le> j \<Longrightarrow> offsets_ok j s"
  unfolding offsets_ok_def by fastforce

lemma pushArg_offsets:
  assumes "state_ok s" "offsets_ok i s"
  shows "offsets_ok i (pushArg s)"
proof (cases "next' s \<noteq> [] \<or> group s = DoubleQuote \<or> group s = CodeBacktick")
  case True
  with assms(1) have g: "group s \<noteq> New" by (auto simp: state_ok_def)
  have a: "args (pushArg s) = args s @ [\<lparr>content = next' s, type = group s,
                      originalIndex = startOfCurrentGroup s\<rparr>]"
    using True by (simp add: pushArg_args)
  show ?thesis
    using assms(2) g unfolding offsets_ok_def a
    by (simp add: sorted_append)
next
  case False
  then have a: "args (pushArg s) = args s" by (simp add: pushArg_args)
  show ?thesis
    using assms(2) unfolding offsets_ok_def a by simp
qed

lemma appendChar_offsets:
  assumes "offsets_ok i s" "present s = 0 \<or> group s \<noteq> New"
  shows "offsets_ok (i + 1) (appendChar c i s)"
proof (cases "group s = New")
  case True
  with assms have "present s = 0" by simp
  with assms(1) True show ?thesis
    unfolding offsets_ok_def by (simp add: less_imp_le)
next
  case False
  with assms(1) show ?thesis
    unfolding offsets_ok_def by fastforce
qed


lemma consumeNormalChar_offsets:
  assumes ok: "state_ok s" and p0: "present s = 0" and off: "offsets_ok i s"
  shows "offsets_ok (i + 1) (consumeNormalChar c i s)"
proof -
  have le: "i \<le> i + 1" by simp
  have 1: "offsets_ok (i + 1) (s\<lparr>escaped := b\<rparr>)" for b
    using off unfolding offsets_ok_def by fastforce
  have 2: "offsets_ok (i + 1) (appendChar d i (s\<lparr>escaped := b\<rparr>))" for b d
    by (rule appendChar_offsets) (use off p0 in \<open>simp_all add: offsets_ok_def\<close>)
  have 3: "offsets_ok (i + 1) (appendChar d i s)" for d
    by (rule appendChar_offsets) (use off p0 in simp_all)
  have 4: "offsets_ok (i + 1) (pushArg s)"
    using pushArg_offsets[OF ok off] le by (rule offsets_ok_mono)
  have "offsets_ok i (pushArg s)" by (rule pushArg_offsets[OF ok off])
  then have 5: "offsets_ok (i + 1) (newGroup DoubleQuote i (pushArg s))"
    using p0 unfolding offsets_ok_def by fastforce
  have 6: "offsets_ok (i + 1) s"
    using off le by (rule offsets_ok_mono)
  show ?thesis
    unfolding consumeNormalChar_def Let_def
    using 1 2 3 4 5 6 by simp
qed

lemma sorted_lookback: "sorted (map (\<lambda>j. lb + 6 * int j) [0..<n])"
  by (induction n) (auto simp: sorted_append)

lemma handle_offsets:
  assumes nx: "next' t = []"
    and srt: "sorted (map originalIndex (args t))"
    and bnd: "\<forall>a \<in> set (args t). 0 \<le> originalIndex a \<and> originalIndex a + int (present t) < i"
    and pi: "int (present t) \<le> i"
    and p0: "present t = 0 \<longrightarrow> group t = New"
  shows "offsets_ok i (handleExtraBackticks i t)"
proof -
  define p where "p = present t"
  define n where "n = p div 3 div 2"
  define new where "new = map (\<lambda>j. \<lparr>content = [], type = CodeBacktick,
                          originalIndex = i - int p + 6 * int j\<rparr>) [0..<n]"
  have a: "args (handleExtraBackticks i t) = args t @ new"
    using nx by (simp add: handle_args new_def n_def p_def)
  have n6: "6 * int n \<le> int p" unfolding n_def by presburger
  have mo: "map originalIndex new = map (\<lambda>j. i - int p + 6 * int j) [0..<n]"
    by (simp add: new_def o_def)
  have newb: "i - int p \<le> originalIndex a \<and> originalIndex a + 6 \<le> i - int p + 6 * int n"
    if "a \<in> set new" for a
    using that by (auto simp: new_def)
  have s1: "sorted (map originalIndex (args t @ new))"
  proof -
    have "originalIndex x \<le> i - int p + 6 * int j" if "x \<in> set (args t)" for x j
    proof -
      from that bnd have "originalIndex x < i - int p" by (auto simp: p_def)
      then show ?thesis by simp
    qed
    then show ?thesis
      using srt by (simp add: sorted_append mo sorted_lookback)
  qed
  have s2: "0 \<le> originalIndex a \<and> originalIndex a < i \<and>
            originalIndex a \<le> i - int p + 6 * int n"
    if "a \<in> set (args t @ new)" for a
  proof (cases "a \<in> set new")
    case True
    from newb[OF True] n6 pi show ?thesis by (simp add: p_def)
  next
    case False
    with that have "a \<in> set (args t)" by simp
    with bnd show ?thesis by (auto simp: p_def)
  qed
  have g: "group (handleExtraBackticks i t) \<noteq> New \<Longrightarrow>
           startOfCurrentGroup (handleExtraBackticks i t) = i - int p + 6 * int n \<and>
           6 * int n < int p"
  proof -
    assume h: "group (handleExtraBackticks i t) \<noteq> New"
    have c: "(p div 3) mod 2 = 1 \<or> p mod 3 \<noteq> 0"
    proof (rule ccontr)
      assume nc: "\<not> ((p div 3) mod 2 = 1 \<or> p mod 3 \<noteq> 0)"
      show False
      proof (cases "n = 0")
        case True
        with nc have "p = 0" unfolding n_def by presburger
        with p0 h nc True show False
          by (simp add: handle_group p_def[symmetric] n_def[symmetric])
      next
        case False
        with h nc show False
          by (simp add: handle_group p_def[symmetric] n_def[symmetric])
      qed
    qed
    then have "6 * int n < int p" unfolding n_def by presburger
    with c show ?thesis
      by (auto simp: handle_start p_def[symmetric] n_def[symmetric])
  qed
  show ?thesis
    unfolding offsets_ok_def a
    using s1 s2 g pi by (auto simp: p_def)
qed


lemma afterBackticks_offsets:
  assumes "state_ok s" "present s = 0" "offsets_ok i s"
  shows "offsets_ok (i + 1) (afterBackticks c i s)"
  using assms
  by (simp add: afterBackticks_def appendChar_offsets consumeNormalChar_offsets)

lemma resolve_open_offsets:
  assumes ok: "state_ok s" and off: "offsets_ok i s" and pp: "present s \<noteq> 0"
  shows "offsets_ok i (handleExtraBackticks i ((pushArg s)\<lparr>group := CodeBacktick\<rparr>))"
proof (rule handle_offsets)
  have po: "offsets_ok i (pushArg s)" by (rule pushArg_offsets[OF ok off])
  show "sorted (map originalIndex (args ((pushArg s)\<lparr>group := CodeBacktick\<rparr>)))"
    using po by (simp add: offsets_ok_def)
  show "\<forall>a \<in> set (args ((pushArg s)\<lparr>group := CodeBacktick\<rparr>)).
          0 \<le> originalIndex a \<and>
          originalIndex a + int (present ((pushArg s)\<lparr>group := CodeBacktick\<rparr>)) < i"
    using po by (simp add: offsets_ok_def)
  show "int (present ((pushArg s)\<lparr>group := CodeBacktick\<rparr>)) \<le> i"
    using off by (simp add: offsets_ok_def)
qed (use pp in simp_all)

lemma resolve_close_offsets:
  assumes ok: "state_ok s" and off: "offsets_ok i s" and g: "group s = CodeBacktick"
  shows "offsets_ok i (handleExtraBackticks i (pushArg (s\<lparr>present := present s - past s\<rparr>)))"
proof (rule handle_offsets)
  let ?s = "s\<lparr>present := present s - past s\<rparr>"
  have ok': "state_ok ?s" using ok g by (simp add: state_ok_def)
  have "offsets_ok i ?s"
    using off unfolding offsets_ok_def by fastforce
  then have po: "offsets_ok i (pushArg ?s)" by (rule pushArg_offsets[OF ok'])
  show "sorted (map originalIndex (args (pushArg ?s)))"
    using po by (simp add: offsets_ok_def)
  show "\<forall>a \<in> set (args (pushArg ?s)).
          0 \<le> originalIndex a \<and> originalIndex a + int (present (pushArg ?s)) < i"
    using po by (simp add: offsets_ok_def)
  from off have "int (present s) \<le> i" by (simp add: offsets_ok_def)
  then have "int (present s - past s) \<le> i" by linarith
  then show "int (present (pushArg ?s)) \<le> i" by simp
qed simp_all

lemma consumeChar_offsets:
  assumes ok: "state_ok s" and off: "offsets_ok i s" and r: "consumeChar c i s = Inr s'"
  shows "offsets_ok (i + 1) s'"
proof (cases "group s = DoubleQuote")
  case True
  with ok have "present s = 0" by (simp add: state_ok_def)
  with True ok off r show ?thesis
    by (auto simp: consumeChar_def consumeNormalChar_offsets)
next
  case nq: False
  show ?thesis
  proof (cases "c = [backtick] \<and> \<not> escaped s")
    case True
    have "offsets_ok (i + 1) (s\<lparr>present := present s + 1\<rparr>)"
      using off unfolding offsets_ok_def by fastforce
    with True nq r show ?thesis by (auto simp: consumeChar_def)
  next
    case nb: False
    show ?thesis
    proof (cases "present s = 0")
      case True
      with nq nb ok off r show ?thesis
        by (auto simp: consumeChar_def consumeNormalChar_offsets)
    next
      case pp: False
      show ?thesis
      proof (cases "group s = CodeBacktick")
        case False
        let ?h = "handleExtraBackticks i ((pushArg s)\<lparr>group := CodeBacktick\<rparr>)"
        have "state_ok ?h"
        proof (rule handle_ok)
          show "\<forall>a \<in> set (args ((pushArg s)\<lparr>group := CodeBacktick\<rparr>)). type a \<noteq> New"
            using ok by (auto simp: state_ok_def pushArg_args)
        qed (use pp in simp_all)
        then have "offsets_ok (i + 1) (afterBackticks c i ?h)"
          using resolve_open_offsets[OF ok off pp] by (simp add: afterBackticks_offsets)
        moreover have "group s = None' \<or> group s = New"
          using False nq by (cases "group s") simp_all
        ultimately show ?thesis
          using nq nb pp r by (auto simp: consumeChar_def)
      next
        case True
        let ?h = "handleExtraBackticks i (pushArg (s\<lparr>present := present s - past s\<rparr>))"
        have "state_ok ?h"
          using ok by (intro handle_ok) (auto simp: state_ok_def pushArg_args)
        then have "offsets_ok (i + 1) (afterBackticks c i ?h)"
          using resolve_close_offsets[OF ok off True] by (simp add: afterBackticks_offsets)
        moreover have "offsets_ok (i + 1) (appendChar (replicate (present s) backtick) i s)"
          using off True by (intro appendChar_offsets) simp_all
        ultimately show ?thesis
          using nq nb pp r True by (auto simp: consumeChar_def split: if_splits)
      qed
    qed
  qed
qed

lemma consumeAll_invariants:
  assumes "state_ok s" "offsets_ok i s"
  shows "\<exists>s'. consumeAll cs i s = (s', None) \<and> state_ok s' \<and>
           offsets_ok (i + int (length cs)) s'"
  using assms
proof (induction cs arbitrary: i s)
  case Nil
  then show ?case by simp
next
  case (Cons c cs)
  from consumeChar_ok[OF Cons.prems(1)] obtain s1
    where s1: "consumeChar [c] i s = Inr s1" "state_ok s1" by blast
  have "offsets_ok (i + 1) s1"
    using Cons.prems s1(1) by (rule consumeChar_offsets)
  from Cons.IH[OF s1(2) this] s1(1) show ?case
    by (simp add: add.assoc)
qed

lemma scan_total:
  "\<exists>s1 s2. consumeAll input 0 new_ArgumentSplitter = (s1, None) \<and>
     consumeChar [] (int (length input)) s1 = Inr s2 \<and>
     state_ok s2 \<and> offsets_ok (int (length input) + 1) s2"
proof -
  from consumeAll_invariants[OF new_ok new_offsets_ok, of input] obtain s1
    where s1: "consumeAll input 0 new_ArgumentSplitter = (s1, None)" "state_ok s1"
      "offsets_ok (int (length input)) s1" by auto
  from consumeChar_ok[OF s1(2)] obtain s2
    where s2: "consumeChar [] (int (length input)) s1 = Inr s2" "state_ok s2" by blast
  have "offsets_ok (int (length input) + 1) s2"
    using s1(2,3) s2(1) by (rule consumeChar_offsets)
  with s1 s2 show ?thesis by blast
qed



subsection \<open>The end marker and the result of split\<close>

lemma consumeNormalChar_end: "group (consumeNormalChar [] i s) \<noteq> None'"
  by (simp add: consumeNormalChar_def)

lemma afterBackticks_end: "group (afterBackticks [] i s) \<noteq> None'"
  by (simp add: afterBackticks_def consumeNormalChar_end)

lemma consumeChar_end:
  assumes "consumeChar [] i s = Inr s'"
  shows "group s' \<noteq> None'"
proof (cases "group s = CodeBacktick")
  case True
  with assms show ?thesis
    by (auto simp: consumeChar_def afterBackticks_end consumeNormalChar_end split: if_splits)
next
  case False
  with assms show ?thesis
    by (auto simp: consumeChar_def afterBackticks_end consumeNormalChar_end split: if_splits)
qed

lemma split_new_eq:
  assumes "consumeAll input 0 new_ArgumentSplitter = (s1, None)"
    "consumeChar [] (int (length input)) s1 = Inr s2"
  shows "split_new input =
           (if group s2 = New then Inr \<lparr>original = input, array_args = args s2\<rparr>
            else Inl (UnfinishedGroup (group s2)))"
  using assms by (simp add: split_new_def split_def)

subsection \<open>The argument list only grows\<close>

lemma pushArg_prefix: "prefix (args s) (args (pushArg s))"
  by (simp add: pushArg_args)

lemma consumeNormalChar_prefix: "prefix (args s) (args (consumeNormalChar c i s))"
  by (simp add: consumeNormalChar_def Let_def pushArg_prefix)

lemma loop_prefix: "prefix (args s) (args (fst (completeGroupsLoop n lb s)))"
proof (induction n arbitrary: lb s)
  case 0
  then show ?case by simp
next
  case (Suc n)
  have "prefix (args s) (args (pushArg (newGroup CodeBacktick lb s)))"
    using pushArg_prefix[of "newGroup CodeBacktick lb s"] by simp
  then show ?case
    using Suc.IH prefix_order.trans by (simp del: newGroup_fields) blast
qed

lemma handle_prefix: "prefix (args s) (args (handleExtraBackticks i s))"
  by (simp add: handleExtraBackticks_def Let_def split_beta loop_prefix)

lemma afterBackticks_prefix: "prefix (args s) (args (afterBackticks c i s))"
  by (simp add: afterBackticks_def consumeNormalChar_prefix)

lemma resolve_prefix:
  assumes "prefix (args s) (args t)"
  shows "prefix (args s) (args (afterBackticks c i (handleExtraBackticks i t)))"
proof -
  have "prefix (args t) (args (afterBackticks c i (handleExtraBackticks i t)))"
    using handle_prefix afterBackticks_prefix by (rule prefix_order.trans)
  with assms show ?thesis by (rule prefix_order.trans)
qed

lemma consumeChar_prefix:
  assumes "consumeChar c i s = Inr s'"
  shows "prefix (args s) (args s')"
proof -
  have A: "prefix (args s) (args (afterBackticks c i
             (handleExtraBackticks i ((pushArg s)\<lparr>group := CodeBacktick\<rparr>))))"
    by (rule resolve_prefix) (simp add: pushArg_prefix)
  have B: "prefix (args s) (args (afterBackticks c i
             (handleExtraBackticks i (pushArg (s\<lparr>present := present s - past s\<rparr>)))))"
    by (rule resolve_prefix) (use pushArg_prefix[of "s\<lparr>present := present s - past s\<rparr>"] in simp)
  from assms A B show ?thesis
    by (auto simp: consumeChar_def consumeNormalChar_prefix split: if_splits)
qed

lemma consumeAll_prefix: "prefix (args s) (args (fst (consumeAll cs i s)))"
proof (induction cs arbitrary: i s)
  case Nil
  then show ?case by simp
next
  case (Cons c cs)
  show ?case
  proof (cases "consumeChar [c] i s")
    case (Inl e)
    then show ?thesis by simp
  next
    case (Inr s1)
    have "prefix (args s) (args (fst (consumeAll cs (i + 1) s1)))"
      using consumeChar_prefix[OF Inr] Cons.IH[of s1 "i + 1"] by (rule prefix_order.trans)
    with Inr show ?thesis by simp
  qed
qed

lemma split_prefix: "prefix (args this) (args (fst (split this input)))"
proof -
  obtain s1 e where c: "consumeAll input 0 this = (s1, e)" by (cases "consumeAll input 0 this")
  have p1: "prefix (args this) (args s1)"
    using consumeAll_prefix[of this input 0] c by simp
  show ?thesis
  proof (cases e)
    case (Some x)
    with c p1 show ?thesis by (simp add: split_def)
  next
    case None
    show ?thesis
    proof (cases "consumeChar [] (int (length input)) s1")
      case (Inl x)
      with c None p1 show ?thesis by (simp add: split_def)
    next
      case (Inr s2)
      from consumeChar_prefix[OF Inr] p1 have "prefix (args this) (args s2)"
        by (rule prefix_order.trans[rotated])
      with c None Inr show ?thesis by (simp add: split_def)
    qed
  qed
qed

lemma split_returns_args:
  assumes "split this input = (s, Inr a)"
  shows "array_args a = args s"
  using assms
  by (auto simp: split_def split: prod.splits option.splits sum.splits if_splits)

subsection \<open>What lies before the first argument\<close>

lemma first_start_prefix:
  assumes "args s \<noteq> []" "prefix (args s) (args s')"
  shows "first_start j s' = first_start i s"
proof -
  from assms obtain a xs ys where "args s = a # xs" "args s' = a # xs @ ys"
    by (cases "args s") (auto simp: prefix_def)
  then show ?thesis by (simp add: first_start_def)
qed

lemma pushArg_first:
  assumes "state_ok s" "args s = []" "group s \<noteq> New"
  shows "first_start j (pushArg s) = startOfCurrentGroup s"
proof -
  have "next' s \<noteq> [] \<or> group s = DoubleQuote \<or> group s = CodeBacktick"
    using assms(1,3) by (cases "group s") (simp_all add: state_ok_def)
  with assms(2) show ?thesis
    by (simp add: first_start_def pushArg_args)
qed

lemma pushArg_nonempty:
  assumes "state_ok s" "group s \<noteq> New"
  shows "args (pushArg s) \<noteq> []"
proof -
  have "next' s \<noteq> [] \<or> group s = DoubleQuote \<or> group s = CodeBacktick"
    using assms by (cases "group s") (simp_all add: state_ok_def)
  then show ?thesis
    by (simp add: pushArg_args)
qed

lemma pushArg_new:
  assumes "state_ok s" "group s = New"
  shows "args (pushArg s) = args s"
  using assms by (simp add: pushArg_args state_ok_def)

lemma consumeNormalChar_first_open:
  assumes ok: "state_ok s" and e: "args s = []" and g: "group s \<noteq> New"
  shows "first_start j (consumeNormalChar c i s) = startOfCurrentGroup s"
proof -
  have 1: "first_start j (pushArg s) = startOfCurrentGroup s"
    by (rule pushArg_first[OF ok e g])
  have 2: "first_start j (newGroup DoubleQuote i (pushArg s)) = startOfCurrentGroup s"
    using 1 pushArg_nonempty[OF ok g]
    by (cases "args (pushArg s)") (simp_all add: first_start_def)
  have 3: "first_start j (appendChar d i s) = startOfCurrentGroup s" for d
    using e g by (simp add: first_start_def)
  have 4: "first_start j (appendChar d i (s\<lparr>escaped := b\<rparr>)) = startOfCurrentGroup s" for d b
    using e g by (simp add: first_start_def)
  have 5: "first_start j (s\<lparr>escaped := b\<rparr>) = startOfCurrentGroup s" for b
    using e g by (simp add: first_start_def)
  have 6: "first_start j s = startOfCurrentGroup s"
    using e g by (simp add: first_start_def)
  show ?thesis
    unfolding consumeNormalChar_def Let_def
    using 1 2 3 4 5 6 by simp
qed

lemma consumeNormalChar_first_new:
  assumes ok: "state_ok s" and e: "args s = []" and g: "group s = New" and p: "present s = 0"
  shows "first_start (i + 1) (consumeNormalChar c i s) = i \<or>
         first_start (i + 1) (consumeNormalChar c i s) = i + 1 \<and> set c \<subseteq> escape_or_space"
proof -
  have pa: "args (pushArg s) = []" using pushArg_new[OF ok g] e by simp
  have 1: "first_start (i + 1) (pushArg s) = i + 1"
    using pa p by (simp add: first_start_def)
  have 2: "first_start (i + 1) (newGroup DoubleQuote i (pushArg s)) = i"
    using pa by (simp add: first_start_def)
  have 3: "d \<noteq> [] \<Longrightarrow> first_start (i + 1) (appendChar d i s) = i" for d
    using e g by (simp add: first_start_def)
  have 4: "d \<noteq> [] \<Longrightarrow> first_start (i + 1) (appendChar d i (s\<lparr>escaped := b\<rparr>)) = i" for d b
    using e g by (simp add: first_start_def)
  have 5: "first_start (i + 1) (s\<lparr>escaped := b\<rparr>) = i + 1" for b
    using e g p by (simp add: first_start_def)
  have 6: "first_start (i + 1) s = i + 1"
    using e g p by (simp add: first_start_def)
  show ?thesis
  proof (cases "c = [backslash]")
    case True
    then show ?thesis
      using 4 5 by (simp add: consumeNormalChar_def Let_def escape_or_space_def)
  next
    case nb: False
    show ?thesis
    proof (cases "c = [dquote]")
      case True
      then show ?thesis
        using 2 3 g by (simp add: consumeNormalChar_def)
    next
      case nd: False
      show ?thesis
      proof (cases "\<exists>w \<in> whitespace. c = [w]")
        case True
        then have "set c \<subseteq> escape_or_space" by (auto simp: escape_or_space_def)
        with True nb nd 1 g show ?thesis
          by (simp add: consumeNormalChar_def)
      next
        case nw: False
        show ?thesis
        proof (cases "c = []")
          case True
          with g 6 show ?thesis by (simp add: consumeNormalChar_def)
        next
          case False
          with nb nd nw 3 show ?thesis by (simp add: consumeNormalChar_def)
        qed
      qed
    qed
  qed
qed


lemma handle_first:
  assumes nx: "next' t = []" and e: "args t = []" and pp: "present t \<noteq> 0"
  shows "first_start j (handleExtraBackticks i t) = i - int (present t) \<and>
         (args (handleExtraBackticks i t) \<noteq> [] \<or>
          group (handleExtraBackticks i t) = CodeBacktick)"
proof (cases "present t div 3 div 2 = 0")
  case True
  with pp have c: "(present t div 3) mod 2 = 1 \<or> present t mod 3 \<noteq> 0" by presburger
  have "args (handleExtraBackticks i t) = []"
    using True e by (simp add: handle_args[OF nx])
  with c True show ?thesis
    by (auto simp: first_start_def handle_group handle_start)
next
  case False
  then obtain m where m: "present t div 3 div 2 = Suc m"
    by (cases "present t div 3 div 2") simp_all
  have "args (handleExtraBackticks i t) =
          \<lparr>content = [], type = CodeBacktick, originalIndex = i - int (present t)\<rparr> #
          map (\<lambda>j. \<lparr>content = [], type = CodeBacktick,
                     originalIndex = i - int (present t) + 6 * int j\<rparr>) [Suc 0..<Suc m]"
    using e by (simp add: handle_args[OF nx] m upt_conv_Cons del: upt_Suc)
  then show ?thesis by (simp add: first_start_def)
qed

lemma afterBackticks_first:
  assumes "args h \<noteq> [] \<or> group h = CodeBacktick"
  shows "first_start j (afterBackticks c i h) = first_start k h"
proof (cases "args h = []")
  case False
  then show ?thesis
    using afterBackticks_prefix by (rule first_start_prefix)
next
  case True
  with assms have "group h = CodeBacktick" by simp
  with True show ?thesis
    by (simp add: afterBackticks_def first_start_def)
qed

lemma resolve_first:
  assumes "args t \<noteq> []"
  shows "first_start j (afterBackticks c i (handleExtraBackticks i t)) = first_start k t"
proof -
  have "prefix (args t) (args (afterBackticks c i (handleExtraBackticks i t)))"
    by (rule resolve_prefix) simp
  with assms show ?thesis by (rule first_start_prefix)
qed

lemma first_start_le:
  assumes "offsets_ok i s"
  shows "first_start i s \<le> i"
proof (cases "args s")
  case Nil
  with assms show ?thesis
    by (auto simp: first_start_def offsets_ok_def)
next
  case (Cons a xs)
  with assms have "originalIndex a + int (present s) < i"
    by (simp add: offsets_ok_def)
  with Cons show ?thesis by (simp add: first_start_def)
qed

lemma consumeChar_first:
  assumes ok: "state_ok s" and r: "consumeChar c i s = Inr s'"
  shows "first_start (i + 1) s' = first_start i s \<or>
         first_start i s = i \<and> first_start (i + 1) s' = i + 1 \<and> set c \<subseteq> escape_or_space"
proof (cases "args s = []")
  case False
  then have "first_start (i + 1) s' = first_start i s"
    using consumeChar_prefix[OF r] by (rule first_start_prefix)
  then show ?thesis ..
next
  case e: True
  show ?thesis
  proof (cases "group s = DoubleQuote")
    case True
    then have "first_start (i + 1) (consumeNormalChar c i s) = startOfCurrentGroup s"
      using consumeNormalChar_first_open[OF ok e] by simp
    with True e r show ?thesis
      by (auto simp: consumeChar_def first_start_def)
  next
    case nq: False
    show ?thesis
    proof (cases "c = [backtick] \<and> \<not> escaped s")
      case True
      with nq r have "s' = s\<lparr>present := present s + 1\<rparr>" by (auto simp: consumeChar_def)
      then show ?thesis using e by (simp add: first_start_def)
    next
      case nb: False
      show ?thesis
      proof (cases "present s = 0")
        case True
        with nq nb r have s': "s' = consumeNormalChar c i s" by (auto simp: consumeChar_def)
        show ?thesis
        proof (cases "group s = New")
          case True
          with e \<open>present s = 0\<close> have "first_start i s = i" by (simp add: first_start_def)
          with consumeNormalChar_first_new[OF ok e True \<open>present s = 0\<close>, of i c]
          show ?thesis unfolding s' by auto
        next
          case False
          with consumeNormalChar_first_open[OF ok e False, of "i + 1" c i] e
          show ?thesis unfolding s' by (simp add: first_start_def)
        qed
      next
        case pp: False
        show ?thesis
        proof (cases "group s = CodeBacktick")
          case True
          then have pz: "past s \<noteq> 0" using ok by (simp add: state_ok_def)
          have fs: "first_start i s = startOfCurrentGroup s"
            using e True by (simp add: first_start_def)
          show ?thesis
          proof (cases "present s < past s")
            case True
            with nq nb pp pz \<open>group s = CodeBacktick\<close> r
            have "s' = appendChar (replicate (present s) backtick) i s"
              by (auto simp: consumeChar_def)
            with e \<open>group s = CodeBacktick\<close> show ?thesis by (simp add: first_start_def)
          next
            case False
            let ?u = "s\<lparr>present := present s - past s\<rparr>"
            have oku: "state_ok ?u" using ok True by (simp add: state_ok_def)
            have gu: "group ?u \<noteq> New" using True by simp
            have eu: "args ?u = []" using e by simp
            have ne: "args (pushArg ?u) \<noteq> []" by (rule pushArg_nonempty[OF oku gu])
            from False nq nb pp pz True r
            have "s' = afterBackticks c i (handleExtraBackticks i (pushArg ?u))"
              by (auto simp: consumeChar_def)
            then have "first_start (i + 1) s' = first_start i (pushArg ?u)"
              using resolve_first[OF ne] by simp
            also have "\<dots> = startOfCurrentGroup s"
              using pushArg_first[OF oku eu gu, of i] by simp
            finally show ?thesis using fs by simp
          qed
        next
          case nc: False
          with nq have g: "group s = None' \<or> group s = New" by (cases "group s") simp_all
          let ?t = "(pushArg s)\<lparr>group := CodeBacktick\<rparr>"
          from g nq nb pp r
          have s': "s' = afterBackticks c i (handleExtraBackticks i ?t)"
            by (auto simp: consumeChar_def)
          show ?thesis
          proof (cases "group s = New")
            case True
            have et: "args ?t = []" using pushArg_new[OF ok True] e by simp
            have pt: "present ?t \<noteq> 0" using pp by simp
            have nt: "next' ?t = []" by simp
            from handle_first[OF nt et pt, of "i + 1" i]
            have h: "first_start (i + 1) (handleExtraBackticks i ?t) = i - int (present s)"
              "args (handleExtraBackticks i ?t) \<noteq> [] \<or>
               group (handleExtraBackticks i ?t) = CodeBacktick"
              by simp_all
            have "first_start (i + 1) s' = i - int (present s)"
              unfolding s' using afterBackticks_first[OF h(2), of "i + 1" c i "i + 1"] h(1)
              by simp
            moreover have "first_start i s = i - int (present s)"
              using e True by (simp add: first_start_def)
            ultimately show ?thesis by simp
          next
            case False
            have ne: "args ?t \<noteq> []" using pushArg_nonempty[OF ok False] by simp
            have "first_start (i + 1) s' = first_start i ?t"
              unfolding s' by (rule resolve_first[OF ne])
            also have "\<dots> = first_start i (pushArg s)"
              using ne by (cases "args (pushArg s)") (simp_all add: first_start_def)
            also have "\<dots> = startOfCurrentGroup s"
              by (rule pushArg_first[OF ok e False])
            also have "\<dots> = first_start i s"
              using e False by (simp add: first_start_def)
            finally show ?thesis ..
          qed
        qed
      qed
    qed
  qed
qed


lemma new_lead_ok: "lead_ok [] 0 new_ArgumentSplitter"
  by (simp add: lead_ok_def first_start_def new_ArgumentSplitter_def)

lemma first_start_ge0:
  assumes "offsets_ok i s"
  shows "0 \<le> first_start i s"
proof (cases "args s")
  case Nil
  with assms show ?thesis
    by (auto simp: first_start_def offsets_ok_def)
next
  case (Cons a xs)
  with assms have "0 \<le> originalIndex a"
    by (simp add: offsets_ok_def)
  with Cons show ?thesis by (simp add: first_start_def)
qed

lemma first_start_here:
  assumes off: "offsets_ok i s" and f: "first_start i s = i"
  shows "args s = [] \<and> group s = New \<and> present s = 0"
proof (cases "args s")
  case (Cons a xs)
  with off have "originalIndex a + int (present s) < i" by (simp add: offsets_ok_def)
  with Cons f show ?thesis by (simp add: first_start_def)
next
  case Nil
  show ?thesis
  proof (cases "group s = New")
    case True
    with Nil f show ?thesis by (simp add: first_start_def)
  next
    case False
    with off have "startOfCurrentGroup s + int (present s) < i" by (simp add: offsets_ok_def)
    with Nil False f show ?thesis by (simp add: first_start_def)
  qed
qed

lemma whitespace_not_special:
  assumes "w \<in> whitespace"
  shows "w \<noteq> backslash" "w \<noteq> dquote" "w \<noteq> backtick"
  using assms by (auto simp: whitespace_def)

lemma consumeChar_opens_on_text:
  assumes ok: "state_ok s" and off: "offsets_ok i s" and r: "consumeChar [w] i s = Inr s'"
    and f: "first_start i s = i" and w: "w \<in> whitespace"
  shows "first_start (i + 1) s' = i + 1"
proof -
  from first_start_here[OF off f]
  have e: "args s = []" and g: "group s = New" and p: "present s = 0" by simp_all
  have "s' = consumeNormalChar [w] i s"
    using r g p whitespace_not_special[OF w] by (simp add: consumeChar_def)
  also have "\<dots> = pushArg s"
    using g w whitespace_not_special[OF w] by (simp add: consumeNormalChar_def)
  finally have s': "s' = pushArg s" .
  have "args (pushArg s) = []" using pushArg_new[OF ok g] e by simp
  then show ?thesis unfolding s' using p by (simp add: first_start_def)
qed

lemma consumeChar_lead:
  assumes ok: "state_ok s" and off: "offsets_ok i s" and r: "consumeChar c i s = Inr s'"
    and len: "i = int (length pre)" and lead: "lead_ok pre i s" and c1: "length c \<le> 1"
  shows "lead_ok (pre @ c) (i + 1) s'"
proof -
  have k0: "0 \<le> first_start i s" by (rule first_start_ge0[OF off])
  have ki: "first_start i s \<le> i" by (rule first_start_le[OF off])
  from consumeChar_first[OF ok r]
  consider (same) "first_start (i + 1) s' = first_start i s"
    | (step) "first_start i s = i" "first_start (i + 1) s' = i + 1" "set c \<subseteq> escape_or_space"
    by blast
  then show ?thesis
  proof cases
    case same
    have "nat (first_start i s) - length pre = 0"
      using ki len by simp
    then have eq: "take (nat (first_start i s)) (pre @ c) = take (nat (first_start i s)) pre"
      by (simp only: take_append take_0 append_Nil2)
    have 1: "set (take (nat (first_start (i + 1) s')) (pre @ c)) \<subseteq> escape_or_space"
      using lead unfolding lead_ok_def same eq by simp
    have 2: "(pre @ c) ! nat (first_start (i + 1) s') \<notin> whitespace"
      if lt: "first_start (i + 1) s' < int (length (pre @ c))"
    proof (cases "first_start i s < i")
      case True
      then have "nat (first_start i s) < length pre" using len k0 by simp
      then have "(pre @ c) ! nat (first_start i s) = pre ! nat (first_start i s)"
        by (simp add: nth_append)
      moreover have "pre ! nat (first_start i s) \<notin> whitespace"
        using lead True len by (simp add: lead_ok_def)
      ultimately show ?thesis unfolding same by simp
    next
      case False
      with ki have f: "first_start i s = i" by simp
      from lt same f len have "c \<noteq> []" by auto
      with c1 obtain x where x: "c = [x]" by (cases c) auto
      have "x \<notin> whitespace"
      proof
        assume "x \<in> whitespace"
        from consumeChar_opens_on_text[OF ok off r[unfolded x] f this] same f
        show False by simp
      qed
      moreover have "(pre @ c) ! nat (first_start (i + 1) s') = x"
        unfolding same f x using len by (simp add: nth_append)
      ultimately show ?thesis by simp
    qed
    from 1 2 show ?thesis unfolding lead_ok_def by blast
  next
    case step
    from step(1) lead len have "set pre \<subseteq> escape_or_space" by (simp add: lead_ok_def)
    moreover have "set (take (nat (i + 1)) (pre @ c)) \<subseteq> set pre \<union> set c"
      using set_take_subset[of "nat (i + 1)" "pre @ c"] by simp
    ultimately have 1: "set (take (nat (first_start (i + 1) s')) (pre @ c)) \<subseteq> escape_or_space"
      using step(2,3) by auto
    have "\<not> first_start (i + 1) s' < int (length (pre @ c))"
      using step(2) len c1 by simp
    with 1 show ?thesis unfolding lead_ok_def by blast
  qed
qed

lemma consumeAll_lead:
  assumes "state_ok s" "offsets_ok (int (length pre)) s" "lead_ok pre (int (length pre)) s"
  shows "\<exists>s'. consumeAll cs (int (length pre)) s = (s', None) \<and> state_ok s' \<and>
           offsets_ok (int (length (pre @ cs))) s' \<and>
           lead_ok (pre @ cs) (int (length (pre @ cs))) s'"
  using assms
proof (induction cs arbitrary: pre s)
  case Nil
  then show ?case by simp
next
  case (Cons c cs)
  from consumeChar_ok[OF Cons.prems(1)] obtain s1
    where s1: "consumeChar [c] (int (length pre)) s = Inr s1" "state_ok s1" by blast
  have n: "int (length (pre @ [c])) = int (length pre) + 1" by simp
  have o1: "offsets_ok (int (length (pre @ [c]))) s1"
    unfolding n by (rule consumeChar_offsets[OF Cons.prems(1,2) s1(1)])
  have l1: "lead_ok (pre @ [c]) (int (length (pre @ [c]))) s1"
    unfolding n by (rule consumeChar_lead[OF Cons.prems(1,2) s1(1) refl Cons.prems(3)]) simp
  from Cons.IH[OF s1(2) o1 l1] obtain s'
    where "consumeAll cs (int (length pre) + 1) s1 = (s', None)" "state_ok s'"
      "offsets_ok (int (length ((pre @ [c]) @ cs))) s'"
      "lead_ok ((pre @ [c]) @ cs) (int (length ((pre @ [c]) @ cs))) s'"
    unfolding n by blast
  with s1(1) show ?case by simp
qed

lemma scan_lead:
  "\<exists>s1 s2. consumeAll input 0 new_ArgumentSplitter = (s1, None) \<and>
     consumeChar [] (int (length input)) s1 = Inr s2 \<and>
     state_ok s2 \<and> offsets_ok (int (length input) + 1) s2 \<and>
     lead_ok input (int (length input) + 1) s2"
proof -
  have "\<exists>s'. consumeAll input (int (length ([]::string))) new_ArgumentSplitter = (s', None) \<and>
           state_ok s' \<and> offsets_ok (int (length ([] @ input))) s' \<and>
           lead_ok ([] @ input) (int (length ([] @ input))) s'"
    by (rule consumeAll_lead) (simp_all add: new_ok new_offsets_ok new_lead_ok)
  then obtain s1
    where s1: "consumeAll input 0 new_ArgumentSplitter = (s1, None)" "state_ok s1"
      "offsets_ok (int (length input)) s1" "lead_ok input (int (length input)) s1"
    by auto
  from consumeChar_ok[OF s1(2)] obtain s2
    where s2: "consumeChar [] (int (length input)) s1 = Inr s2" "state_ok s2" by blast
  have "offsets_ok (int (length input) + 1) s2"
    using s1(2,3) s2(1) by (rule consumeChar_offsets)
  moreover have "lead_ok input (int (length input) + 1) s2"
    using consumeChar_lead[OF s1(2,3) s2(1) refl s1(4)] by simp
  ultimately show ?thesis using s1(1) s2 by blast
qed

lemma substring_between:
  assumes "0 \<le> a" "a \<le> b" "b \<le> int (length s)"
  shows "substring s (Some a) (Some b) = take (nat (b - a)) (drop (nat a) s)"
  using assms by (simp add: substring_def Let_def min_def max_def)

lemma substring_to_end:
  assumes "0 \<le> a" "a \<le> int (length s)"
  shows "substring s (Some a) None = drop (nat a) s"
  using assms by (simp add: substring_def Let_def min_def max_def)

lemma substring_all: "substring s None None = s"
  by (simp add: substring_def)

lemma dropWhile_is_drop:
  assumes "set (take k xs) \<subseteq> A" "k < length xs \<longrightarrow> xs ! k \<notin> A"
  shows "dropWhile (\<lambda>c. c \<in> A) xs = drop k xs"
proof -
  have "dropWhile (\<lambda>c. c \<in> A) (take k xs @ drop k xs) = dropWhile (\<lambda>c. c \<in> A) (drop k xs)"
    using assms(1) by (intro dropWhile_append2) auto
  then have 1: "dropWhile (\<lambda>c. c \<in> A) xs = dropWhile (\<lambda>c. c \<in> A) (drop k xs)"
    by simp
  show ?thesis
  proof (cases "k < length xs")
    case True
    then have "drop k xs = xs ! k # drop (Suc k) xs"
      by (simp add: Cons_nth_drop_Suc)
    with assms(2) True 1 show ?thesis by simp
  next
    case False
    with 1 show ?thesis by simp
  qed
qed

section \<open>Concrete inputs\<close>

text \<open>
  C8. The five-character input backslash, double quote, \<open>foo\<close> is split into exactly one
  ungrouped token whose content is the double quote followed by \<open>foo\<close>: the escaped
  quote is a literal character and opens no quoted group.
\<close>

theorem C8_escaped_quote_is_literal:
  "split_new [backslash, dquote, CHR ''f'', CHR ''o'', CHR ''o''] =
     Inr \<lparr>original = [backslash, dquote, CHR ''f'', CHR ''o'', CHR ''o''],
          array_args =
            [\<lparr>content = [dquote, CHR ''f'', CHR ''o'', CHR ''o''], type = None',
              originalIndex = 1\<rparr>]\<rparr>"
  by code_simp

text \<open>
  C2. On the input of two backticks, \<open>a\<close>, one backtick, \<open>b\<close>, two backticks the source
  does not return one code token: the branch of \<^verbatim>\<open>consumeChar\<close> for a run shorter
  than the opening width appends the backticks, but neither consumes the character that
  ended the run nor resets the pending count (after \<open>b\<close> the buffer holds \<open>a\<close> and the
  backtick, and one backtick is still pending), so the closing run is counted as three
  backticks and the split ends with an unfinished code group.
\<close>

theorem C2_short_run_drops_char:
  "split_new [backtick, backtick, CHR ''a'', backtick, CHR ''b'', backtick, backtick] =
     Inl (UnfinishedGroup CodeBacktick) \<and>
   fst (consumeAll [backtick, backtick, CHR ''a'', backtick, CHR ''b''] 0 new_ArgumentSplitter) =
     \<lparr>escaped = False, startOfCurrentGroup = 0, group = CodeBacktick,
      next' = [CHR ''a'', backtick], past = 2, present = 1, args = []\<rparr>"
  by code_simp

text \<open>
  C3. Six consecutive backticks do not give two tokens.
\<close>

theorem C3_six_backticks_not_two:
  "map_sum id length_args (split_new (replicate 6 backtick)) \<noteq> Inr 2"
  by code_simp

text \<open>
  C3, as the source has it: six consecutive backticks are one complete width-3 group, and
  the split returns exactly one empty code token, starting at offset 0.
\<close>

theorem C3_six_backticks_one_token:
  "split_new (replicate 6 backtick) =
     Inr \<lparr>original = replicate 6 backtick,
          array_args = [\<lparr>content = [], type = CodeBacktick, originalIndex = 0\<rparr>]\<rparr>"
  by code_simp

section \<open>The scan as a whole\<close>

text \<open>
  C5. On a fresh splitter the scan of any input (all characters, then the end marker)
  runs to its end without an exception; the group left after the end marker is \<open>New\<close>,
  \<open>DoubleQuote\<close> or \<open>CodeBacktick\<close>; \<^verbatim>\<open>split\<close> returns the arguments exactly when it is
  \<open>New\<close> and throws the unfinished-group error otherwise. The input of a double quote
  followed by \<open>abc\<close> fails with the unfinished-group error.
\<close>

theorem C5_fails_iff_group_open:
  "(\<exists>s1 s2. consumeAll input 0 new_ArgumentSplitter = (s1, None) \<and>
      consumeChar [] (int (length input)) s1 = Inr s2 \<and>
      (group s2 = New \<or> group s2 = DoubleQuote \<or> group s2 = CodeBacktick) \<and>
      split_new input =
        (if group s2 = New then Inr \<lparr>original = input, array_args = args s2\<rparr>
         else Inl (UnfinishedGroup (group s2)))) \<and>
   split_new [dquote, CHR ''a'', CHR ''b'', CHR ''c''] = Inl (UnfinishedGroup DoubleQuote)"
proof
  from scan_total[of input] obtain s1 s2
    where s: "consumeAll input 0 new_ArgumentSplitter = (s1, None)"
      "consumeChar [] (int (length input)) s1 = Inr s2" by blast
  have "group s2 = New \<or> group s2 = DoubleQuote \<or> group s2 = CodeBacktick"
    using consumeChar_end[OF s(2)] by (cases "group s2") simp_all
  with s split_new_eq[OF s] show "\<exists>s1 s2. consumeAll input 0 new_ArgumentSplitter = (s1, None) \<and>
      consumeChar [] (int (length input)) s1 = Inr s2 \<and>
      (group s2 = New \<or> group s2 = DoubleQuote \<or> group s2 = CodeBacktick) \<and>
      split_new input =
        (if group s2 = New then Inr \<lparr>original = input, array_args = args s2\<rparr>
         else Inl (UnfinishedGroup (group s2)))"
    by blast
  show "split_new [dquote, CHR ''a'', CHR ''b'', CHR ''c''] = Inl (UnfinishedGroup DoubleQuote)"
    by code_simp
qed

text \<open>
  C6. On a fresh splitter \<^verbatim>\<open>split\<close> never throws one of the two internal errors of
  \<^verbatim>\<open>consumeChar\<close>: it returns the arguments or throws the unfinished-group error.
\<close>

theorem C6_no_internal_error:
  "split_new input \<noteq> Inl UnknownBackticksToMatch \<and>
   (\<forall>g. split_new input \<noteq> Inl (ImpossibleCondition g)) \<and>
   ((\<exists>r. split_new input = Inr r) \<or> (\<exists>g. split_new input = Inl (UnfinishedGroup g)))"
proof -
  from scan_total[of input] obtain s1 s2
    where s: "consumeAll input 0 new_ArgumentSplitter = (s1, None)"
      "consumeChar [] (int (length input)) s1 = Inr s2" by blast
  show ?thesis
    unfolding split_new_eq[OF s] by simp
qed

text \<open>
  C7. When \<^verbatim>\<open>split\<close> on a fresh splitter succeeds, the start offsets of the returned
  arguments are non-decreasing in list order, and every argument's kind is \<open>None\<close>
  (plain), \<open>DoubleQuote\<close> or \<open>CodeBacktick\<close>, never \<open>New\<close>.
\<close>

theorem C7_offsets_sorted_kinds_final:
  assumes "split_new input = Inr r"
  shows "sorted (map originalIndex (array_args r)) \<and>
         (\<forall>a \<in> set (array_args r).
            type a = None' \<or> type a = DoubleQuote \<or> type a = CodeBacktick)"
proof -
  from scan_total[of input] obtain s1 s2
    where s: "consumeAll input 0 new_ArgumentSplitter = (s1, None)"
      "consumeChar [] (int (length input)) s1 = Inr s2"
      and inv: "state_ok s2" "offsets_ok (int (length input) + 1) s2" by blast
  from assms have r: "array_args r = args s2"
    unfolding split_new_eq[OF s] by (auto split: if_splits)
  have "type a = None' \<or> type a = DoubleQuote \<or> type a = CodeBacktick"
    if "a \<in> set (args s2)" for a
  proof -
    from inv(1) that have "type a \<noteq> New" by (simp add: state_ok_def)
    then show ?thesis by (cases "type a") simp_all
  qed
  with inv(2) show ?thesis
    unfolding r by (simp add: offsets_ok_def)
qed

theorem C7_offsets_sorted_kinds_final_witness:
  "split_new ''foo bar'' =
     Inr \<lparr>original = ''foo bar'',
          array_args = [\<lparr>content = ''foo'', type = None', originalIndex = 0\<rparr>,
                        \<lparr>content = ''bar'', type = None', originalIndex = 4\<rparr>]\<rparr> \<and>
   sorted [0, 4 :: int]"
proof -
  have h: "split_new ''foo bar'' =
     Inr \<lparr>original = ''foo bar'',
          array_args = [\<lparr>content = ''foo'', type = None', originalIndex = 0\<rparr>,
                        \<lparr>content = ''bar'', type = None', originalIndex = 4\<rparr>]\<rparr>"
    by code_simp
  from C7_offsets_sorted_kinds_final[OF h] h show ?thesis by simp
qed

section \<open>Resolving a run of backticks\<close>

text \<open>
  C4. A run of \<open>p > 0\<close> unescaped backticks that ends (at index \<open>i\<close>, on a character
  that is not an unescaped backtick) while the group is \<open>New\<close> or \<open>None\<close>: after the
  pending word is pushed, \<^verbatim>\<open>handleExtraBackticks\<close> pushes exactly \<open>p div 3 div 2\<close>
  empty code arguments (at offsets \<open>i - p\<close>, \<open>i - p + 6\<close>, ...); then, if \<open>p div 3\<close> is odd,
  a code group of width 3 is open whose content so far is the \<open>p mod 3\<close> leftover
  backticks; otherwise, if \<open>p mod 3\<close> is not 0, a code group of width \<open>p mod 3\<close> is open
  with no content; otherwise no group is open. Eight backticks followed by \<open>x\<close> push
  one empty code argument and leave a code group of width 2 open.
\<close>

theorem C4_backtick_run_resolution:
  assumes g: "group s0 = New \<or> group s0 = None'"
    and p: "present s0 = p" "0 < p"
    and c: "\<not> (c = [backtick] \<and> \<not> escaped s0)"
  shows
    "(let s = handleExtraBackticks i ((pushArg s0)\<lparr>group := CodeBacktick\<rparr>) in
        consumeChar c i s0 = Inr (afterBackticks c i s) \<and>
        args s = args (pushArg s0) @
          map (\<lambda>j. \<lparr>content = [], type = CodeBacktick,
                     originalIndex = i - int p + 6 * int j\<rparr>) [0..<p div 3 div 2] \<and>
        present s = 0 \<and>
        (if odd (p div 3) then
           group s = CodeBacktick \<and> past s = 3 \<and> next' s = replicate (p mod 3) backtick
         else if p mod 3 \<noteq> 0 then
           group s = CodeBacktick \<and> past s = p mod 3 \<and> next' s = []
         else group s = New \<and> next' s = [])) \<and>
     fst (consumeAll (replicate 8 backtick @ ''x'') 0 new_ArgumentSplitter) =
       \<lparr>escaped = False, startOfCurrentGroup = 6, group = CodeBacktick, next' = ''x'',
        past = 2, present = 0,
        args = [\<lparr>content = [], type = CodeBacktick, originalIndex = 0\<rparr>]\<rparr>"
proof
  let ?t = "(pushArg s0)\<lparr>group := CodeBacktick\<rparr>"
  let ?s = "handleExtraBackticks i ?t"
  have nx: "next' ?t = []" by simp
  have pt: "present ?t = p" using p by simp
  have 1: "consumeChar c i s0 = Inr (afterBackticks c i ?s)"
    using g p c by (auto simp: consumeChar_def)
  have 2: "args ?s = args (pushArg s0) @
          map (\<lambda>j. \<lparr>content = [], type = CodeBacktick,
                     originalIndex = i - int p + 6 * int j\<rparr>) [0..<p div 3 div 2]"
    using handle_args[OF nx, of i] by (simp add: pt)
  have 3: "(if odd (p div 3) then
           group ?s = CodeBacktick \<and> past ?s = 3 \<and> next' ?s = replicate (p mod 3) backtick
         else if p mod 3 \<noteq> 0 then
           group ?s = CodeBacktick \<and> past ?s = p mod 3 \<and> next' ?s = []
         else group ?s = New \<and> next' ?s = [])"
  proof (cases "odd (p div 3)")
    case True
    then have m: "(p div 3) mod 2 = 1" by presburger
    show ?thesis
      using True by (simp add: handle_group handle_past handle_next[OF nx] pt m)
  next
    case False
    then have m: "(p div 3) mod 2 \<noteq> 1" by presburger
    show ?thesis
    proof (cases "p mod 3 = 0")
      case True
      with False p(2) have "p div 3 div 2 \<noteq> 0" by presburger
      with True False show ?thesis
        by (simp add: handle_group handle_past handle_next[OF nx] pt m)
    next
      case nz: False
      with False show ?thesis
        by (simp add: handle_group handle_past handle_next[OF nx] pt m)
    qed
  qed
  show "let s = ?s in
        consumeChar c i s0 = Inr (afterBackticks c i s) \<and>
        args s = args (pushArg s0) @
          map (\<lambda>j. \<lparr>content = [], type = CodeBacktick,
                     originalIndex = i - int p + 6 * int j\<rparr>) [0..<p div 3 div 2] \<and>
        present s = 0 \<and>
        (if odd (p div 3) then
           group s = CodeBacktick \<and> past s = 3 \<and> next' s = replicate (p mod 3) backtick
         else if p mod 3 \<noteq> 0 then
           group s = CodeBacktick \<and> past s = p mod 3 \<and> next' s = []
         else group s = New \<and> next' s = [])"
    unfolding Let_def using 1 2 3 by simp
  show "fst (consumeAll (replicate 8 backtick @ ''x'') 0 new_ArgumentSplitter) =
       \<lparr>escaped = False, startOfCurrentGroup = 6, group = CodeBacktick, next' = ''x'',
        past = 2, present = 0,
        args = [\<lparr>content = [], type = CodeBacktick, originalIndex = 0\<rparr>]\<rparr>"
    by code_simp
qed

theorem C4_backtick_run_resolution_witness:
  "(let s = handleExtraBackticks 8
              ((pushArg (new_ArgumentSplitter\<lparr>present := 8\<rparr>))\<lparr>group := CodeBacktick\<rparr>) in
      consumeChar ''x'' 8 (new_ArgumentSplitter\<lparr>present := 8\<rparr>) =
        Inr (afterBackticks ''x'' 8 s) \<and>
      args s = [\<lparr>content = [], type = CodeBacktick, originalIndex = 0\<rparr>] \<and>
      present s = 0 \<and> group s = CodeBacktick \<and> past s = 2 \<and> next' s = [])"
proof -
  let ?s0 = "new_ArgumentSplitter\<lparr>present := 8\<rparr>"
  have g: "group ?s0 = New \<or> group ?s0 = None'" by (simp add: new_ArgumentSplitter_def)
  have p: "present ?s0 = 8" "0 < (8::nat)" by simp_all
  have c: "\<not> (''x'' = [backtick] \<and> \<not> escaped ?s0)" by simp
  have a: "args (pushArg ?s0) = []" by (simp add: pushArg_args new_ArgumentSplitter_def)
  show ?thesis
    using C4_backtick_run_resolution[OF g p c, of 8]
    by (simp add: Let_def a)
qed

section \<open>Restoring with a start index out of range\<close>

text \<open>
  C9, as stated, fails: with the two arguments of \<open>foo bar\<close>, \<^verbatim>\<open>restore(2, 1)\<close> has its
  start out of range and returns \<open>foo \<close> (with the space), which is neither empty nor a
  remainder (a suffix) of the original string.
\<close>

theorem C9_restore_out_of_range_counterexample:
  "split_new ''foo bar'' =
     Inr \<lparr>original = ''foo bar'',
          array_args = [\<lparr>content = ''foo'', type = None', originalIndex = 0\<rparr>,
                        \<lparr>content = ''bar'', type = None', originalIndex = 4\<rparr>]\<rparr> \<and>
   restore \<lparr>original = ''foo bar'',
            array_args = [\<lparr>content = ''foo'', type = None', originalIndex = 0\<rparr>,
                          \<lparr>content = ''bar'', type = None', originalIndex = 4\<rparr>]\<rparr>
           2 (Some 1) = ''foo '' \<and>
   ''foo '' \<noteq> [] \<and> \<not> suffix ''foo '' ''foo bar''"
  by code_simp

text \<open>
  C9, as the source has it: with a start index out of range (negative, or at least the
  number of arguments) \<^verbatim>\<open>restore\<close> does not fail; it returns the whole original string
  when the end is absent or out of range, and otherwise the part of the original string
  before the start offset of argument \<open>end\<close>.
\<close>

theorem C9_restore_out_of_range:
  assumes "start < 0 \<or> int (length_args a) \<le> start"
  shows "restore a start e =
           (case e of
              None \<Rightarrow> original a
            | Some j \<Rightarrow>
                (case arg_at (array_args a) j of
                   None \<Rightarrow> original a
                 | Some t \<Rightarrow> take (nat (originalIndex t)) (original a)))"
proof -
  have s: "arg_at (array_args a) start = None"
    using assms by (auto simp: arg_at_def length_args_def)
  have 1: "substring x None None = x" for x
    by (simp add: substring_def)
  have 2: "substring x None (Some y) = take (nat y) x" for x y
    by (auto simp: substring_def Let_def min_def max_def)
  show ?thesis
    unfolding restore_def s
    by (simp add: 1 2 split: option.splits)
qed

theorem C9_restore_out_of_range_witness:
  "restore \<lparr>original = ''foo bar'',
            array_args = [\<lparr>content = ''foo'', type = None', originalIndex = 0\<rparr>,
                          \<lparr>content = ''bar'', type = None', originalIndex = 4\<rparr>]\<rparr>
           2 (Some 1) = ''foo '' \<and>
   restore \<lparr>original = ''foo bar'',
            array_args = [\<lparr>content = ''foo'', type = None', originalIndex = 0\<rparr>,
                          \<lparr>content = ''bar'', type = None', originalIndex = 4\<rparr>]\<rparr>
           2 None = ''foo bar''"
proof -
  let ?a = "\<lparr>original = ''foo bar'',
            array_args = [\<lparr>content = ''foo'', type = None', originalIndex = 0\<rparr>,
                          \<lparr>content = ''bar'', type = None', originalIndex = 4\<rparr>]\<rparr>"
  have h: "(2::int) < 0 \<or> int (length_args ?a) \<le> 2" by (simp add: length_args_def)
  show ?thesis
    using C9_restore_out_of_range[OF h, of "Some 1"] C9_restore_out_of_range[OF h, of None]
    by (simp add: arg_at_def)
qed

section \<open>Calling split twice on one object\<close>

text \<open>
  C10. \<^verbatim>\<open>split\<close> starts from the object as the previous call left it: when two calls
  on the same object both return, the arguments returned by the first are a prefix of
  the arguments returned by the second. Splitting \<open>a\<close> and then \<open>b\<close> on one object
  returns \<open>a\<close>, \<open>b\<close> for the second call, where a fresh object returns \<open>b\<close> alone.
\<close>

theorem C10_second_split_keeps_tokens:
  assumes "split this c1 = (s1, Inr a1)" "split s1 c2 = (s2, Inr a2)"
  shows "prefix (array_args a1) (array_args a2) \<and>
         split_new ''b'' =
           Inr \<lparr>original = ''b'',
                array_args = [\<lparr>content = ''b'', type = None', originalIndex = 0\<rparr>]\<rparr> \<and>
         snd (split (fst (split new_ArgumentSplitter ''a'')) ''b'') =
           Inr \<lparr>original = ''b'',
                array_args = [\<lparr>content = ''a'', type = None', originalIndex = 0\<rparr>,
                              \<lparr>content = ''b'', type = None', originalIndex = 0\<rparr>]\<rparr>"
proof (intro conjI)
  from split_prefix[of s1 c2] assms(2) have "prefix (args s1) (args s2)" by simp
  then show "prefix (array_args a1) (array_args a2)"
    by (simp add: split_returns_args[OF assms(1)] split_returns_args[OF assms(2)])
  show "split_new ''b'' =
           Inr \<lparr>original = ''b'',
                array_args = [\<lparr>content = ''b'', type = None', originalIndex = 0\<rparr>]\<rparr>"
    by code_simp
  show "snd (split (fst (split new_ArgumentSplitter ''a'')) ''b'') =
           Inr \<lparr>original = ''b'',
                array_args = [\<lparr>content = ''a'', type = None', originalIndex = 0\<rparr>,
                              \<lparr>content = ''b'', type = None', originalIndex = 0\<rparr>]\<rparr>"
    by code_simp
qed

theorem C10_second_split_keeps_tokens_witness:
  "split new_ArgumentSplitter ''a'' =
     (\<lparr>escaped = False, startOfCurrentGroup = 0, group = New, next' = [], past = 0,
       present = 0, args = [\<lparr>content = ''a'', type = None', originalIndex = 0\<rparr>]\<rparr>,
      Inr \<lparr>original = ''a'',
           array_args = [\<lparr>content = ''a'', type = None', originalIndex = 0\<rparr>]\<rparr>) \<and>
   prefix [\<lparr>content = ''a'', type = None', originalIndex = 0\<rparr>]
          [\<lparr>content = ''a'', type = None', originalIndex = 0\<rparr>,
           \<lparr>content = ''b'', type = None', originalIndex = 0\<rparr>]"
proof -
  let ?s1 = "\<lparr>escaped = False, startOfCurrentGroup = 0, group = New, next' = [], past = 0,
       present = 0, args = [\<lparr>content = ''a'', type = None', originalIndex = 0\<rparr>]\<rparr>"
  let ?s2 = "\<lparr>escaped = False, startOfCurrentGroup = 0, group = New, next' = [], past = 0,
       present = 0, args = [\<lparr>content = ''a'', type = None', originalIndex = 0\<rparr>,
                            \<lparr>content = ''b'', type = None', originalIndex = 0\<rparr>]\<rparr>"
  have h1: "split new_ArgumentSplitter ''a'' =
     (?s1, Inr \<lparr>original = ''a'',
           array_args = [\<lparr>content = ''a'', type = None', originalIndex = 0\<rparr>]\<rparr>)"
    by code_simp
  have h2: "split ?s1 ''b'' =
     (?s2, Inr \<lparr>original = ''b'',
           array_args = [\<lparr>content = ''a'', type = None', originalIndex = 0\<rparr>,
                         \<lparr>content = ''b'', type = None', originalIndex = 0\<rparr>]\<rparr>)"
    by code_simp
  from C10_second_split_keeps_tokens[OF h1 h2] h1 show ?thesis by simp
qed

section \<open>Restoring a range of arguments\<close>

text \<open>
  C1, as stated, fails in its last part. On the input backslash, \<open>a\<close> the only argument
  starts at offset 1, so \<^verbatim>\<open>restore(0)\<close> is \<open>a\<close>, while the input has no leading
  whitespace to remove: the escaping backslash is lost. On the input of two spaces there
  is no argument, \<^verbatim>\<open>this.args[0]\<close> is \<^verbatim>\<open>undefined\<close>, and \<^verbatim>\<open>restore(0)\<close> is the whole
  input with its whitespace.
\<close>

theorem C1_restore_counterexample:
  "split_new [backslash, CHR ''a''] =
     Inr \<lparr>original = [backslash, CHR ''a''],
          array_args = [\<lparr>content = ''a'', type = None', originalIndex = 1\<rparr>]\<rparr> \<and>
   restore \<lparr>original = [backslash, CHR ''a''],
            array_args = [\<lparr>content = ''a'', type = None', originalIndex = 1\<rparr>]\<rparr> 0 None = ''a'' \<and>
   leading_whitespace_removed [backslash, CHR ''a''] = [backslash, CHR ''a''] \<and>
   restore \<lparr>original = [backslash, CHR ''a''],
            array_args = [\<lparr>content = ''a'', type = None', originalIndex = 1\<rparr>]\<rparr> 0 None \<noteq>
     leading_whitespace_removed [backslash, CHR ''a''] \<and>
   split_new ''  '' = Inr \<lparr>original = ''  '', array_args = []\<rparr> \<and>
   restore \<lparr>original = ''  '', array_args = []\<rparr> 0 None = ''  '' \<and>
   leading_whitespace_removed ''  '' = []"
  by code_simp

text \<open>
  C1, as the source has it. When \<^verbatim>\<open>split\<close> on a fresh splitter returns the arguments
  \<open>T[0..n)\<close> of \<open>S\<close>: for \<open>i < j < n\<close> the offsets satisfy
  \<open>0 \<le> off i \<le> off j \<le> length S\<close> and \<^verbatim>\<open>restore(i, j)\<close> is the part of \<open>S\<close> from
  \<open>off i\<close> up to, and excluding, \<open>off j\<close>; for \<open>i < n\<close>, \<^verbatim>\<open>restore(i)\<close> with no end or
  with an end \<open>j \<ge> n\<close> is the part of \<open>S\<close> from \<open>off i\<close> to its end. Consequently
  \<^verbatim>\<open>restore(0)\<close> is all of \<open>S\<close> when there is no argument, and otherwise the part of \<open>S\<close>
  from the first argument's start offset to its end; when no backslash lies before
  that offset, the part left out is whitespace only and \<^verbatim>\<open>restore(0)\<close> is \<open>S\<close> with its
  leading whitespace removed.
\<close>

theorem C1_restore_spans:
  assumes "split_new S = Inr r"
  shows
    "(\<forall>i j. i < j \<and> j < length (array_args r) \<longrightarrow>
        0 \<le> originalIndex (array_args r ! i) \<and>
        originalIndex (array_args r ! i) \<le> originalIndex (array_args r ! j) \<and>
        originalIndex (array_args r ! j) \<le> int (length S) \<and>
        restore r (int i) (Some (int j)) =
          take (nat (originalIndex (array_args r ! j) - originalIndex (array_args r ! i)))
               (drop (nat (originalIndex (array_args r ! i))) S)) \<and>
     (\<forall>i j. i < length (array_args r) \<and> length (array_args r) \<le> j \<longrightarrow>
        restore r (int i) None = drop (nat (originalIndex (array_args r ! i))) S \<and>
        restore r (int i) (Some (int j)) = drop (nat (originalIndex (array_args r ! i))) S) \<and>
     (array_args r = [] \<longrightarrow> restore r 0 None = S) \<and>
     (array_args r \<noteq> [] \<longrightarrow>
        0 \<le> originalIndex (hd (array_args r)) \<and>
        originalIndex (hd (array_args r)) \<le> int (length S) \<and>
        restore r 0 None = drop (nat (originalIndex (hd (array_args r)))) S \<and>
        (backslash \<notin> set (take (nat (originalIndex (hd (array_args r)))) S) \<longrightarrow>
           set (take (nat (originalIndex (hd (array_args r)))) S) \<subseteq> whitespace \<and>
           restore r 0 None = leading_whitespace_removed S))"
proof -
  from scan_lead[of S] obtain s1 s2
    where s: "consumeAll S 0 new_ArgumentSplitter = (s1, None)"
      "consumeChar [] (int (length S)) s1 = Inr s2"
      and inv: "offsets_ok (int (length S) + 1) s2" "lead_ok S (int (length S) + 1) s2"
    by blast
  from assms have r: "array_args r = args s2" "original r = S"
    unfolding split_new_eq[OF s] by (auto split: if_splits)
  let ?off = "\<lambda>i. originalIndex (args s2 ! i)"
  have srt: "sorted (map originalIndex (args s2))"
    using inv(1) by (simp add: offsets_ok_def)
  have bnd: "0 \<le> ?off i \<and> ?off i \<le> int (length S)" if "i < length (args s2)" for i
  proof -
    from that have "args s2 ! i \<in> set (args s2)" by simp
    with inv(1) have "0 \<le> ?off i \<and> ?off i + int (present s2) < int (length S) + 1"
      unfolding offsets_ok_def by blast
    then show ?thesis by simp
  qed
  have mono: "?off i \<le> ?off j" if "i < j" "j < length (args s2)" for i j
  proof -
    from that have "map originalIndex (args s2) ! i \<le> map originalIndex (args s2) ! j"
      by (intro sorted_nth_mono[OF srt]) simp_all
    with that show ?thesis by simp
  qed
  have at: "arg_at (args s2) (int i) = Some (args s2 ! i)" if "i < length (args s2)" for i
    using that by (simp add: arg_at_def)
  have out: "arg_at (args s2) (int j) = None" if "length (args s2) \<le> j" for j
    using that by (simp add: arg_at_def)
  have 1: "0 \<le> ?off i \<and> ?off i \<le> ?off j \<and> ?off j \<le> int (length S) \<and>
           restore r (int i) (Some (int j)) = take (nat (?off j - ?off i)) (drop (nat (?off i)) S)"
    if "i < j" "j < length (args s2)" for i j
  proof -
    from that have i: "i < length (args s2)" by simp
    from bnd[OF i] bnd[OF that(2)] mono[OF that] show ?thesis
      by (simp add: restore_def r at[OF i] at[OF that(2)] substring_between)
  qed
  have 2: "restore r (int i) None = drop (nat (?off i)) S \<and>
           restore r (int i) (Some (int j)) = drop (nat (?off i)) S"
    if "i < length (args s2)" "length (args s2) \<le> j" for i j
    using bnd[OF that(1)]
    by (simp add: restore_def r at[OF that(1)] out[OF that(2)] substring_to_end)
  have 3: "restore r 0 None = S" if "args s2 = []"
    using that by (simp add: restore_def r arg_at_def substring_all)
  have 4: "0 \<le> originalIndex (hd (args s2)) \<and>
           originalIndex (hd (args s2)) \<le> int (length S) \<and>
           restore r 0 None = drop (nat (originalIndex (hd (args s2)))) S \<and>
           (backslash \<notin> set (take (nat (originalIndex (hd (args s2)))) S) \<longrightarrow>
              set (take (nat (originalIndex (hd (args s2)))) S) \<subseteq> whitespace \<and>
              restore r 0 None = leading_whitespace_removed S)"
    if ne: "args s2 \<noteq> []"
  proof -
    from ne obtain a xs where Cons: "args s2 = a # xs" by (cases "args s2") auto
    then have f: "first_start (int (length S) + 1) s2 = originalIndex a"
      by (simp add: first_start_def)
    from Cons bnd[of 0] have b: "0 \<le> originalIndex a" "originalIndex a \<le> int (length S)"
      by simp_all
    have re: "restore r 0 None = drop (nat (originalIndex a)) S"
      using Cons b by (simp add: restore_def r arg_at_def substring_to_end)
    have pre: "set (take (nat (originalIndex a)) S) \<subseteq> escape_or_space"
      using inv(2) f by (simp add: lead_ok_def)
    have fst: "nat (originalIndex a) < length S \<longrightarrow> S ! nat (originalIndex a) \<notin> whitespace"
      using inv(2) f b by (simp add: lead_ok_def)
    have ws: "set (take (nat (originalIndex a)) S) \<subseteq> whitespace \<and>
              restore r 0 None = leading_whitespace_removed S"
      if nb: "backslash \<notin> set (take (nat (originalIndex a)) S)"
    proof -
      from pre nb have w: "set (take (nat (originalIndex a)) S) \<subseteq> whitespace"
        by (auto simp: escape_or_space_def)
      from dropWhile_is_drop[OF w fst] re show ?thesis
        using w by (simp add: leading_whitespace_removed_def)
    qed
    from b re ws show ?thesis unfolding Cons by simp
  qed
  show ?thesis
    unfolding r(1) using 1 2 3 4 by blast
qed

theorem C1_restore_spans_witness:
  "restore \<lparr>original = '' foo bar'',
            array_args = [\<lparr>content = ''foo'', type = None', originalIndex = 1\<rparr>,
                          \<lparr>content = ''bar'', type = None', originalIndex = 5\<rparr>]\<rparr>
           0 (Some 1) = ''foo '' \<and>
   restore \<lparr>original = '' foo bar'',
            array_args = [\<lparr>content = ''foo'', type = None', originalIndex = 1\<rparr>,
                          \<lparr>content = ''bar'', type = None', originalIndex = 5\<rparr>]\<rparr>
           1 None = ''bar'' \<and>
   restore \<lparr>original = '' foo bar'',
            array_args = [\<lparr>content = ''foo'', type = None', originalIndex = 1\<rparr>,
                          \<lparr>content = ''bar'', type = None', originalIndex = 5\<rparr>]\<rparr>
           0 (Some 2) = ''foo bar'' \<and>
   restore \<lparr>original = '' foo bar'',
            array_args = [\<lparr>content = ''foo'', type = None', originalIndex = 1\<rparr>,
                          \<lparr>content = ''bar'', type = None', originalIndex = 5\<rparr>]\<rparr>
           0 None = leading_whitespace_removed '' foo bar'' \<and>
   restore \<lparr>original = ''  '', array_args = []\<rparr> 0 None = ''  ''"
proof -
  let ?r = "\<lparr>original = '' foo bar'',
            array_args = [\<lparr>content = ''foo'', type = None', originalIndex = 1\<rparr>,
                          \<lparr>content = ''bar'', type = None', originalIndex = 5\<rparr>]\<rparr>"
  let ?e = "\<lparr>original = ''  '', array_args = []\<rparr>"
  have h: "split_new '' foo bar'' = Inr ?r"
    by code_simp
  have h0: "split_new ''  '' = Inr ?e"
    by code_simp
  note t = C1_restore_spans[OF h]
  from t have a: "(0::nat) < 1 \<and> 1 < length (array_args ?r) \<longrightarrow>
      restore ?r (int 0) (Some (int 1)) =
        take (nat (originalIndex (array_args ?r ! 1) - originalIndex (array_args ?r ! 0)))
             (drop (nat (originalIndex (array_args ?r ! 0))) '' foo bar'')"
    by blast
  from t have b: "(1::nat) < length (array_args ?r) \<and> length (array_args ?r) \<le> 2 \<longrightarrow>
      restore ?r (int 1) None = drop (nat (originalIndex (array_args ?r ! 1))) '' foo bar''"
    by blast
  from t have c: "(0::nat) < length (array_args ?r) \<and> length (array_args ?r) \<le> 2 \<longrightarrow>
      restore ?r (int 0) (Some (int 2)) =
        drop (nat (originalIndex (array_args ?r ! 0))) '' foo bar''"
    by blast
  from t have d: "array_args ?r \<noteq> [] \<longrightarrow>
      (backslash \<notin> set (take (nat (originalIndex (hd (array_args ?r)))) '' foo bar'') \<longrightarrow>
         restore ?r 0 None = leading_whitespace_removed '' foo bar'')"
    by blast
  from C1_restore_spans[OF h0] have e: "array_args ?e = [] \<longrightarrow> restore ?e 0 None = ''  ''"
    by blast
  from a b c d e show ?thesis by simp
qed

end
